theory Spec2Isabelle
  imports Main "HOL-Library.Char_ord" "HOL-Library.List_Lexorder" "HOL-Library.Multiset"
begin

section \<open>Strings of the program\<close>

text \<open>
  A Python \<open>str\<close> is modelled as a \<open>string\<close>: the bytes of its UTF-8 encoding. A
  \<open>str\<close> can hold a lone surrogate, which UTF-8 refuses; it stands here as the three
  bytes its code point would take: \<open>ED\<close>, a byte from \<open>A0\<close> to \<open>BF\<close>, and a third
  byte. The characters the program looks for (\<open>@\<close>, the dot, the comma, the double
  quote, the ends of line, the classes of the email pattern) are ASCII, and an ASCII
  byte is never part of the encoding of another character, so that splitting, matching
  and quoting do to the bytes what Python does to the characters.

  \<open>str.lower\<close> is applied to the matches of the email pattern only, which are ASCII: it
  is modelled by its action on the ASCII letters. \<open>str.capitalize\<close> is applied to any
  string a caller sends and follows the Unicode tables of the Python runtime: it is a
  parameter \<open>cap\<close> of the functions that call it. On an ASCII string it puts the first
  character in upper case and the others in lower case, which is \<open>capitalize_ascii\<close>
  below.
\<close>

definition is_upper :: "char \<Rightarrow> bool" where
  "is_upper c \<longleftrightarrow> 65 \<le> (of_char c :: nat) \<and> (of_char c :: nat) \<le> 90"

definition is_lower :: "char \<Rightarrow> bool" where
  "is_lower c \<longleftrightarrow> 97 \<le> (of_char c :: nat) \<and> (of_char c :: nat) \<le> 122"

definition is_ascii :: "char \<Rightarrow> bool" where
  "is_ascii c \<longleftrightarrow> (of_char c :: nat) < 128"

definition is_digit :: "char \<Rightarrow> bool" where
  "is_digit c \<longleftrightarrow> 48 \<le> (of_char c :: nat) \<and> (of_char c :: nat) \<le> 57"

definition ascii_lowercase :: string where
  "ascii_lowercase = ''abcdefghijklmnopqrstuvwxyz''"

definition ascii_uppercase :: string where
  "ascii_uppercase = ''ABCDEFGHIJKLMNOPQRSTUVWXYZ''"

definition lower_char :: "char \<Rightarrow> char" where
  "lower_char c = (if is_upper c then ascii_lowercase ! ((of_char c :: nat) - 65) else c)"

definition upper_char :: "char \<Rightarrow> char" where
  "upper_char c = (if is_lower c then ascii_uppercase ! ((of_char c :: nat) - 97) else c)"

text \<open>\<open>s.lower()\<close>\<close>

definition lower :: "string \<Rightarrow> string" where
  "lower s = map lower_char s"

text \<open>
  \<open>s.capitalize()\<close> on an ASCII string: the first character in upper case, the rest in
  lower case.
\<close>

fun capitalize_ascii :: "string \<Rightarrow> string" where
  "capitalize_ascii [] = []"
| "capitalize_ascii (c # cs) = upper_char c # map lower_char cs"

text \<open>
  \<open>s.split(sep)\<close> for a separator of one character: the pieces between the occurrences of
  \<open>sep\<close>, in order; there is always at least one piece.
\<close>

fun split_str :: "char \<Rightarrow> string \<Rightarrow> string list" where
  "split_str sep [] = [[]]"
| "split_str sep (c # cs) =
     (if c = sep then [] # split_str sep cs
      else (case split_str sep cs of
              [] \<Rightarrow> [[c]]
            | w # ws \<Rightarrow> (c # w) # ws))"

text \<open>
  Indexing a list raises \<open>IndexError\<close> out of range; encoding a string with a lone
  surrogate in UTF-8 raises \<open>UnicodeEncodeError\<close>.
\<close>

datatype py_error = IndexError | UnicodeEncodeError

definition getitem :: "'a list \<Rightarrow> nat \<Rightarrow> py_error + 'a" where
  "getitem xs i = (if i < length xs then Inr (xs ! i) else Inl IndexError)"

section \<open>The company label of an email\<close>

text \<open>
  The body of the \<open>try\<close> block of \<open>extract_company_from_email\<close>: each step that can
  raise returns its error. \<open>cap\<close> is \<open>str.capitalize\<close>.
\<close>

definition company_try :: "(string \<Rightarrow> string) \<Rightarrow> string \<Rightarrow> py_error + string" where
  "company_try cap email =
     (case getitem (split_str CHR ''@'' email) 1 of
        Inl e \<Rightarrow> Inl e
      | Inr domain \<Rightarrow>
          (case getitem (split_str CHR ''.'' domain) 0 of
             Inl e \<Rightarrow> Inl e
           | Inr company \<Rightarrow> Inr (cap company)))"

text \<open>The bare \<open>except\<close> turns every error into the empty string.\<close>

definition extract_company_from_email :: "(string \<Rightarrow> string) \<Rightarrow> string \<Rightarrow> string" where
  "extract_company_from_email cap email =
     (case company_try cap email of Inl _ \<Rightarrow> [] | Inr company \<Rightarrow> company)"

section \<open>The regular expression\<close>

text \<open>
  \<open>re.findall\<close> runs a backtracking matcher. The pattern
  \<open>[a-zA-Z0-9._%+-]+@[a-zA-Z0-9.-]+\.[a-zA-Z]{2,}\<close> is a sequence of literal characters and
  of greedy repetitions of one character class with a lower bound and no upper bound,
  which is all the matcher below handles.
\<close>

datatype item = Lit char | Rep "char \<Rightarrow> bool" nat

text \<open>
  A greedy repetition has taken \<open>n\<close> characters; the rest of the pattern \<open>k\<close> is tried
  after them, and on failure one character is given back at a time, down to \<open>lo\<close>.
\<close>

fun try_down :: "(string \<Rightarrow> string option) \<Rightarrow> nat \<Rightarrow> nat \<Rightarrow> string \<Rightarrow> string option" where
  "try_down k lo n s =
     (case k (drop n s) of
        Some r \<Rightarrow> Some r
      | None \<Rightarrow> if lo < n then try_down k lo (n - 1) s else None)"

text \<open>
  The match of a pattern at the start of \<open>s\<close>: the text left after the match, or
  \<open>None\<close> when there is no match here.
\<close>

primrec match_items :: "item list \<Rightarrow> string \<Rightarrow> string option" where
  "match_items [] = (\<lambda>s. Some s)"
| "match_items (i # p) =
     (\<lambda>s. case i of
        Lit c \<Rightarrow> (case s of [] \<Rightarrow> None | x # xs \<Rightarrow> if x = c then match_items p xs else None)
      | Rep cls lo \<Rightarrow>
          (let n = length (takeWhile cls s)
           in if n < lo then None else try_down (match_items p) lo n s))"

text \<open>
  The scan of \<open>re.findall\<close>: the leftmost match, then the scan goes on after it; where
  nothing matches the scan moves one character on. The last branch is for a match of
  the empty string, which a pattern with a literal in it never has.
\<close>

fun findall :: "item list \<Rightarrow> string \<Rightarrow> string list" where
  "findall p [] = (case match_items p [] of None \<Rightarrow> [] | Some r \<Rightarrow> [[]])"
| "findall p (c # cs) =
     (case match_items p (c # cs) of
        None \<Rightarrow> findall p cs
      | Some r \<Rightarrow>
          if length r < length (c # cs)
          then take (length (c # cs) - length r) (c # cs) # findall p r
          else [] # findall p cs)"

definition local_char :: "char \<Rightarrow> bool" where
  "local_char c \<longleftrightarrow> is_lower c \<or> is_upper c \<or> is_digit c \<or> c \<in> set ''._%+-''"

definition domain_char :: "char \<Rightarrow> bool" where
  "domain_char c \<longleftrightarrow> is_lower c \<or> is_upper c \<or> is_digit c \<or> c \<in> set ''.-''"

definition alpha_char :: "char \<Rightarrow> bool" where
  "alpha_char c \<longleftrightarrow> is_lower c \<or> is_upper c"

definition email_pattern :: "item list" where
  "email_pattern =
     [Rep local_char 1, Lit CHR ''@'', Rep domain_char 1, Lit CHR ''.'', Rep alpha_char 2]"

section \<open>The extraction\<close>

text \<open>
  The loop of \<open>extract_emails_from_text\<close> over the matches, with its two variables
  \<open>seen\<close> and \<open>unique_emails\<close>.
\<close>

fun dedup_loop :: "string list \<Rightarrow> string set \<Rightarrow> string list \<Rightarrow> string list" where
  "dedup_loop [] seen unique_emails = unique_emails"
| "dedup_loop (email # emails) seen unique_emails =
     (let email_lower = lower email
      in if email_lower \<notin> seen
         then dedup_loop emails (insert email_lower seen) (unique_emails @ [email])
         else dedup_loop emails seen unique_emails)"

definition extract_emails_from_text :: "string \<Rightarrow> string list" where
  "extract_emails_from_text text =
     (let emails = findall email_pattern text;
          unique_emails = dedup_loop emails {} []
      in sort_key lower unique_emails)"

text \<open>
  The same function with the scan of \<open>re.findall\<close> written as the loop it is, which
  returns \<open>None\<close> if it runs forever: \<open>acc\<close> is the list of matches so far.
\<close>

partial_function (option) findall_loop :: "item list \<Rightarrow> string \<Rightarrow> string list \<Rightarrow> string list option" where
  "findall_loop p s acc =
     (case match_items p s of
        None \<Rightarrow> (case s of [] \<Rightarrow> Some acc | c # cs \<Rightarrow> findall_loop p cs acc)
      | Some r \<Rightarrow>
          if length r < length s
          then findall_loop p r (acc @ [take (length s - length r) s])
          else (case s of [] \<Rightarrow> Some (acc @ [[]]) | c # cs \<Rightarrow> findall_loop p cs (acc @ [[]])))"

definition extract_emails_run :: "string \<Rightarrow> string list option" where
  "extract_emails_run text =
     (case findall_loop email_pattern text [] of
        None \<Rightarrow> None
      | Some emails \<Rightarrow> Some (sort_key lower (dedup_loop emails {} [])))"

section \<open>The CSV file\<close>

text \<open>
  \<open>csv.writer\<close> with its default dialect: fields joined by a comma, a field holding a
  comma, a double quote, a carriage return or a line feed is put in double quotes with
  its double quotes doubled, a row of one empty field is written as two double quotes,
  and every row ends with carriage return and line feed.
\<close>

definition crlf :: string where
  "crlf = [CHR 0x0D, CHR 0x0A]"

definition needs_quote :: "string \<Rightarrow> bool" where
  "needs_quote f = list_ex (\<lambda>c. c \<in> set [CHR '','', CHR 0x22, CHR 0x0D, CHR 0x0A]) f"

definition quote_field :: "string \<Rightarrow> string" where
  "quote_field f =
     (if needs_quote f
      then [CHR 0x22] @ concat (map (\<lambda>c. if c = CHR 0x22 then [CHR 0x22, CHR 0x22] else [c]) f)
             @ [CHR 0x22]
      else f)"

fun join_fields :: "string list \<Rightarrow> string" where
  "join_fields [] = []"
| "join_fields [f] = f"
| "join_fields (f # g # fs) = f @ CHR '','' # join_fields (g # fs)"

definition format_row :: "string list \<Rightarrow> string" where
  "format_row fields =
     (if fields = [[]] then [CHR 0x22, CHR 0x22] else join_fields (map quote_field fields)) @ crlf"

text \<open>\<open>writer.writerow(row)\<close> on the buffer \<open>output\<close>.\<close>

definition writerow :: "string \<Rightarrow> string list \<Rightarrow> string" where
  "writerow output row = output @ format_row row"

text \<open>The loop over the emails, in \<open>download_csv_direct\<close> and in \<open>save_to_csv\<close>.\<close>

fun csv_loop :: "(string \<Rightarrow> string) \<Rightarrow> string list \<Rightarrow> string \<Rightarrow> string" where
  "csv_loop cap [] output = output"
| "csv_loop cap (email # emails) output =
     (let company = extract_company_from_email cap email
      in csv_loop cap emails (writerow output [email, company]))"

text \<open>
  \<open>s.encode('utf-8')\<close>: the bytes of the string, or \<open>UnicodeEncodeError\<close> when the
  string has a lone surrogate, a byte \<open>ED\<close> followed by a byte from \<open>A0\<close> to \<open>BF\<close>.
\<close>

fun has_surrogate :: "string \<Rightarrow> bool" where
  "has_surrogate (a # b # cs) \<longleftrightarrow>
     ((of_char a :: nat) = 0xED \<and> 0xA0 \<le> (of_char b :: nat) \<and> (of_char b :: nat) \<le> 0xBF)
     \<or> has_surrogate (b # cs)"
| "has_surrogate [a] \<longleftrightarrow> False"
| "has_surrogate [] \<longleftrightarrow> False"

definition encode_utf8 :: "string \<Rightarrow> py_error + string" where
  "encode_utf8 s = (if has_surrogate s then Inl UnicodeEncodeError else Inr s)"

text \<open>
  The request of \<open>download_csv_direct\<close> is the list under the key \<open>emails\<close> of its JSON
  body, \<open>None\<close> when the body is empty or has no such key. The response is the error
  of status 400 or the bytes of the file sent. The function has no \<open>try\<close>: the error
  of the encoding is raised to its caller.
\<close>

datatype response = BadRequest string | CsvFile string

definition download_csv_direct ::
    "(string \<Rightarrow> string) \<Rightarrow> string list option \<Rightarrow> py_error + response" where
  "download_csv_direct cap data =
     (case data of
        None \<Rightarrow> Inr (BadRequest ''No emails provided'')
      | Some emails \<Rightarrow>
          (let output = csv_loop cap emails (writerow [] [''Email'', ''Company/Domain''])
           in case encode_utf8 output of
                Inl e \<Rightarrow> Inl e
              | Inr mem \<Rightarrow> Inr (CsvFile mem)))"

text \<open>
  The content \<open>save_to_csv\<close> writes to its file, which is opened with the encoding
  UTF-8.
\<close>

definition save_to_csv :: "(string \<Rightarrow> string) \<Rightarrow> string list \<Rightarrow> py_error + string" where
  "save_to_csv cap emails =
     encode_utf8 (csv_loop cap emails (writerow [] [''Email'', ''Company/Domain'']))"

section \<open>Notions of the specification\<close>

text \<open>The part of a string before the first \<open>c\<close>, and the part after it.\<close>

definition before_first :: "char \<Rightarrow> string \<Rightarrow> string" where
  "before_first c s = takeWhile (\<lambda>x. x \<noteq> c) s"

definition after_first :: "char \<Rightarrow> string \<Rightarrow> string" where
  "after_first c s = tl (dropWhile (\<lambda>x. x \<noteq> c) s)"

text \<open>
  A string matches a pattern as a whole, whatever the choices of the repetitions: the
  language of the pattern.
\<close>

fun full_match :: "item list \<Rightarrow> string \<Rightarrow> bool" where
  "full_match [] s \<longleftrightarrow> s = []"
| "full_match (Lit c # p) s \<longleftrightarrow> (\<exists>xs. s = c # xs \<and> full_match p xs)"
| "full_match (Rep cls lo # p) s \<longleftrightarrow>
     (\<exists>u v. s = u @ v \<and> lo \<le> length u \<and> list_all cls u \<and> full_match p v)"

text \<open>
  The email pattern, read off the regular expression: a local part, \<open>@\<close>, a domain,
  a dot and at least two letters.
\<close>

definition is_email :: "string \<Rightarrow> bool" where
  "is_email e \<longleftrightarrow>
     (\<exists>l d t. e = l @ CHR ''@'' # d @ CHR ''.'' # t \<and>
        l \<noteq> [] \<and> list_all local_char l \<and>
        d \<noteq> [] \<and> list_all domain_char d \<and>
        2 \<le> length t \<and> list_all alpha_char t)"

text \<open>\<open>e\<close> is a contiguous part of \<open>text\<close>.\<close>

definition occurs_in :: "string \<Rightarrow> string \<Rightarrow> bool" where
  "occurs_in e text \<longleftrightarrow> (\<exists>pre post. text = pre @ e @ post)"

text \<open>
  The rows of a CSV text, read back. Fields are separated by commas and a row ends
  with carriage return and line feed; a field that starts with a double quote runs to
  the closing double quote and holds any character, a double quote in it being written
  twice. The reader goes through the text with the field and the row it is reading;
  the result is \<open>None\<close> when the text is not of this form.
\<close>

datatype mode = FieldStart | Plain | InQuote | QuoteSeen | AfterCR

fun read_rows :: "mode \<Rightarrow> string \<Rightarrow> string list \<Rightarrow> string \<Rightarrow> string list list option" where
  "read_rows m fld row [] = (if m = FieldStart \<and> fld = [] \<and> row = [] then Some [] else None)"
| "read_rows FieldStart fld row (c # cs) =
     (if c = CHR 0x22 then read_rows InQuote [] row cs
      else if c = CHR '','' then read_rows FieldStart [] (row @ [fld]) cs
      else if c = CHR 0x0D then read_rows AfterCR [] (row @ [fld]) cs
      else if c = CHR 0x0A then None
      else read_rows Plain (fld @ [c]) row cs)"
| "read_rows Plain fld row (c # cs) =
     (if c = CHR 0x22 then None
      else if c = CHR '','' then read_rows FieldStart [] (row @ [fld]) cs
      else if c = CHR 0x0D then read_rows AfterCR [] (row @ [fld]) cs
      else if c = CHR 0x0A then None
      else read_rows Plain (fld @ [c]) row cs)"
| "read_rows InQuote fld row (c # cs) =
     (if c = CHR 0x22 then read_rows QuoteSeen fld row cs
      else read_rows InQuote (fld @ [c]) row cs)"
| "read_rows QuoteSeen fld row (c # cs) =
     (if c = CHR 0x22 then read_rows InQuote (fld @ [c]) row cs
      else if c = CHR '','' then read_rows FieldStart [] (row @ [fld]) cs
      else if c = CHR 0x0D then read_rows AfterCR [] (row @ [fld]) cs
      else None)"
| "read_rows AfterCR fld row (c # cs) =
     (if c = CHR 0x0A then map_option ((#) row) (read_rows FieldStart [] [] cs) else None)"

definition read_csv :: "string \<Rightarrow> string list list option" where
  "read_csv s = read_rows FieldStart [] [] s"

text \<open>
  The entries the loop of the extraction appends to \<open>unique_emails\<close>, as a function of
  \<open>seen\<close> and of the matches still to come.
\<close>

fun keep_first :: "string set \<Rightarrow> string list \<Rightarrow> string list" where
  "keep_first seen [] = []"
| "keep_first seen (e # es) =
     (if lower e \<in> seen then keep_first seen es
      else e # keep_first (insert (lower e) seen) es)"

text \<open>
  What the extraction asks of \<open>sorted\<close>, whatever the sorting procedure: a result is a
  rearrangement of the deduplicated matches, in ascending order of the lowercased value.
\<close>

definition extract_result :: "string \<Rightarrow> string list \<Rightarrow> bool" where
  "extract_result text ys \<longleftrightarrow>
     mset ys = mset (dedup_loop (findall email_pattern text) {} []) \<and> sorted (map lower ys)"

section \<open>Splitting and the company label\<close>

declare try_down.simps [simp del]

lemma split_str_unfold:
  "split_str sep s =
     before_first sep s # (if sep \<in> set s then split_str sep (after_first sep s) else [])"
  by (induction s) (auto simp: before_first_def after_first_def)

lemma getitem_split_0: "getitem (split_str sep s) 0 = Inr (before_first sep s)"
  by (subst split_str_unfold) (simp add: getitem_def)

lemma getitem_split_1:
  "getitem (split_str sep s) (Suc 0) =
     (if sep \<in> set s then Inr (before_first sep (after_first sep s)) else Inl IndexError)"
proof (cases "sep \<in> set s")
  case True
  have "split_str sep s = before_first sep s # split_str sep (after_first sep s)"
    using True by (subst split_str_unfold) simp
  moreover have "split_str sep (after_first sep s) =
      before_first sep (after_first sep s) #
        (if sep \<in> set (after_first sep s)
         then split_str sep (after_first sep (after_first sep s)) else [])"
    by (rule split_str_unfold)
  ultimately show ?thesis using True by (simp add: getitem_def)
next
  case False
  then show ?thesis by (subst split_str_unfold) (simp add: getitem_def)
qed

lemma company_try_eq:
  "company_try cap email =
     (if CHR ''@'' \<in> set email
      then Inr (cap (before_first CHR ''.'' (before_first CHR ''@'' (after_first CHR ''@'' email))))
      else Inl IndexError)"
  by (simp add: company_try_def getitem_split_1 getitem_split_0)

lemma company_eq:
  "extract_company_from_email cap email =
     (if CHR ''@'' \<in> set email
      then cap (before_first CHR ''.'' (before_first CHR ''@'' (after_first CHR ''@'' email)))
      else [])"
  by (simp add: extract_company_from_email_def company_try_eq)

lemma before_first_id: "c \<notin> set s \<Longrightarrow> before_first c s = s"
  by (auto simp: before_first_def takeWhile_eq_all_conv)

lemma before_first_subset: "set (before_first c s) \<subseteq> set s"
  by (auto simp: before_first_def dest: set_takeWhileD)

lemmas case_eval =
  upper_char_def lower_char_def is_lower_def is_upper_def ascii_lowercase_def
  ascii_uppercase_def

section \<open>The matcher finds emails\<close>

lemma try_down_Some:
  "try_down k lo n s = Some r \<Longrightarrow>
     \<exists>j. j \<le> n \<and> (lo \<le> n \<longrightarrow> lo \<le> j) \<and> k (drop j s) = Some r"
proof (induction k lo n s rule: try_down.induct)
  case (1 k lo n s)
  show ?case
  proof (cases "k (drop n s)")
    case (Some r')
    with "1.prems" have "k (drop n s) = Some r" by (simp add: try_down.simps)
    then show ?thesis by blast
  next
    case None
    with "1.prems" have lt: "lo < n" and rec: "try_down k lo (n - 1) s = Some r"
      by (auto simp: try_down.simps[of k lo n s] split: if_splits)
    from "1.IH"[OF None lt rec] obtain j
      where "j \<le> n - 1" "lo \<le> n - 1 \<longrightarrow> lo \<le> j" "k (drop j s) = Some r"
      by blast
    with lt show ?thesis by (intro exI[of _ j]) auto
  qed
qed

lemma take_run: "j \<le> length (takeWhile P s) \<Longrightarrow> list_all P (take j s)"
proof (induction s arbitrary: j)
  case Nil
  then show ?case by simp
next
  case (Cons x xs)
  show ?case
  proof (cases j)
    case 0
    then show ?thesis by simp
  next
    case (Suc m)
    with Cons.prems have "P x" "m \<le> length (takeWhile P xs)"
      by (auto split: if_splits)
    with Cons.IH[of m] Suc show ?thesis by simp
  qed
qed

lemma match_items_sound:
  "match_items p s = Some r \<Longrightarrow> \<exists>m. s = m @ r \<and> full_match p m"
proof (induction p arbitrary: s)
  case Nil
  then show ?case by simp
next
  case (Cons i p)
  show ?case
  proof (cases i)
    case (Lit c)
    with Cons.prems obtain xs where s: "s = c # xs" and m: "match_items p xs = Some r"
      by (auto split: list.splits if_splits)
    from Cons.IH[OF m] obtain m' where "xs = m' @ r" "full_match p m'" by blast
    with s Lit show ?thesis by (intro exI[of _ "c # m'"]) simp
  next
    case (Rep cls lo)
    define n where "n = length (takeWhile cls s)"
    from Cons.prems Rep have ge: "lo \<le> n" and t: "try_down (match_items p) lo n s = Some r"
      by (auto simp: n_def Let_def split: if_splits)
    from try_down_Some[OF t] ge obtain j where j: "j \<le> n" "lo \<le> j"
      and m: "match_items p (drop j s) = Some r" by blast
    from Cons.IH[OF m] obtain m' where m': "drop j s = m' @ r" "full_match p m'" by blast
    have cls: "list_all cls (take j s)" using j(1) unfolding n_def by (rule take_run)
    have "j \<le> length s" using j(1) length_takeWhile_le[of cls s] unfolding n_def by linarith
    then have len: "length (take j s) = j" by simp
    have "s = take j s @ drop j s" by simp
    with m'(1) have "s = (take j s @ m') @ r" by simp
    moreover have "\<exists>u v. take j s @ m' = u @ v \<and> lo \<le> length u \<and> list_all cls u \<and> full_match p v"
      using cls len j(2) m'(2) by (intro exI[of _ "take j s"] exI[of _ m']) simp
    then have "full_match (i # p) (take j s @ m')" by (simp add: Rep)
    ultimately show ?thesis by blast
  qed
qed

lemma full_match_email:
  assumes "full_match email_pattern m"
  shows "is_email m"
proof -
  from assms obtain l v1 where 1: "m = l @ v1" "1 \<le> length l" "list_all local_char l"
    and r1: "full_match [Lit CHR ''@'', Rep domain_char 1, Lit CHR ''.'', Rep alpha_char 2] v1"
    unfolding email_pattern_def full_match.simps(3) by blast
  from r1 obtain v2 where 2: "v1 = CHR ''@'' # v2"
    and r2: "full_match [Rep domain_char 1, Lit CHR ''.'', Rep alpha_char 2] v2"
    unfolding full_match.simps(2) by blast
  from r2 obtain d v3 where 3: "v2 = d @ v3" "1 \<le> length d" "list_all domain_char d"
    and r3: "full_match [Lit CHR ''.'', Rep alpha_char 2] v3"
    unfolding full_match.simps(3) by blast
  from r3 obtain v4 where 4: "v3 = CHR ''.'' # v4"
    and r4: "full_match [Rep alpha_char 2] v4"
    unfolding full_match.simps(2) by blast
  from r4 obtain t where 5: "2 \<le> length t" "list_all alpha_char t" "v4 = t"
    unfolding full_match.simps by auto
  have "m = l @ CHR ''@'' # d @ CHR ''.'' # t"
    using 1(1) 2 3(1) 4 5(3) by simp
  moreover have "l \<noteq> []" "d \<noteq> []" using 1(2) 3(2) by auto
  ultimately show ?thesis
    unfolding is_email_def using 1(3) 3(3) 5(1,2) by blast
qed

lemma match_email:
  assumes "match_items email_pattern s = Some r"
  shows "\<exists>e. s = e @ r \<and> is_email e"
  using match_items_sound[OF assms] full_match_email by blast

lemma is_email_nonempty: "is_email e \<Longrightarrow> e \<noteq> []"
  by (auto simp: is_email_def)

lemma occurs_in_Cons: "occurs_in m cs \<Longrightarrow> occurs_in m (c # cs)"
proof -
  assume "occurs_in m cs"
  then obtain pre post where "cs = pre @ m @ post" unfolding occurs_in_def by blast
  then have "c # cs = (c # pre) @ m @ post" by simp
  then show ?thesis unfolding occurs_in_def by blast
qed

lemma occurs_in_prefix: "occurs_in e (e @ r)"
proof -
  have "e @ r = [] @ e @ r" by simp
  then show ?thesis unfolding occurs_in_def by blast
qed

lemma occurs_in_append: "occurs_in m r \<Longrightarrow> occurs_in m (e @ r)"
proof -
  assume "occurs_in m r"
  then obtain pre post where "r = pre @ m @ post" unfolding occurs_in_def by blast
  then have "e @ r = (e @ pre) @ m @ post" by simp
  then show ?thesis unfolding occurs_in_def by blast
qed

text \<open>A match of the email pattern is never empty: the scan always moves on.\<close>

lemma match_email_advances:
  "match_items email_pattern s = Some r \<Longrightarrow> length r < length s"
proof -
  assume "match_items email_pattern s = Some r"
  from match_email[OF this] obtain e where e: "s = e @ r" "is_email e" by blast
  from e(2) have "e \<noteq> []" by (rule is_email_nonempty)
  with e(1) show ?thesis by simp
qed

lemma findall_sound:
  assumes ok: "\<And>s r. match_items p s = Some r \<Longrightarrow> \<exists>e. s = e @ r \<and> e \<noteq> [] \<and> Q e"
  shows "m \<in> set (findall p s) \<Longrightarrow> Q m \<and> occurs_in m s"
  using ok
proof (induction p s rule: findall.induct)
  case (1 p)
  show ?case
  proof (cases "match_items p []")
    case None
    with 1 show ?thesis by simp
  next
    case (Some r)
    from "1.prems"(2)[OF Some] show ?thesis by auto
  qed
next
  case (2 p c cs)
  note ok' = "2.prems"(2)
  show ?case
  proof (cases "match_items p (c # cs)")
    case None
    from "2.IH"(1)[OF None _ ok'] "2.prems"(1) None have "Q m \<and> occurs_in m cs" by simp
    then show ?thesis by (simp add: occurs_in_Cons)
  next
    case (Some r)
    from ok'[OF Some] obtain e where e: "c # cs = e @ r" "e \<noteq> []" "Q e" by blast
    have len: "length (c # cs) = length e + length r" using e(1) by (metis length_append)
    have "0 < length e" using e(2) by simp
    with len have lt: "length r < length (c # cs)" by linarith
    have "take (length (c # cs) - length r) (c # cs) = take (length e) (e @ r)"
      using e(1) len by simp
    then have tk: "take (length (c # cs) - length r) (c # cs) = e" by simp
    from "2.prems"(1) Some lt tk have "m = e \<or> m \<in> set (findall p r)" by auto
    then show ?thesis
    proof
      assume "m = e"
      with e show ?thesis using occurs_in_prefix[of e r] by simp
    next
      assume "m \<in> set (findall p r)"
      with "2.IH"(2)[OF Some lt _ ok'] have "Q m \<and> occurs_in m r" by simp
      then show ?thesis using e(1) occurs_in_append[of m r e] by simp
    qed
  qed
qed

lemma findall_email:
  "m \<in> set (findall email_pattern s) \<Longrightarrow> is_email m \<and> occurs_in m s"
proof (rule findall_sound)
  fix s r assume "match_items email_pattern s = Some r"
  from match_email[OF this] is_email_nonempty
  show "\<exists>e. s = e @ r \<and> e \<noteq> [] \<and> is_email e" by blast
qed

section \<open>The loop keeps the first match of each lowercased form\<close>

lemma dedup_loop_eq: "dedup_loop es seen u = u @ keep_first seen es"
  by (induction es arbitrary: seen u) (auto simp: Let_def)

lemma keep_first_mem:
  "e \<in> set (keep_first seen es) \<longleftrightarrow>
     e \<in> set es \<and> lower e \<notin> seen \<and> find (\<lambda>x. lower x = lower e) es = Some e"
proof (induction es arbitrary: seen)
  case Nil
  show ?case by simp
next
  case (Cons a es)
  show ?case
  proof (cases "lower a \<in> seen")
    case True
    then show ?thesis using Cons.IH[of seen] by auto
  next
    case False
    then show ?thesis using Cons.IH[of "insert (lower a) seen"] by auto
  qed
qed

lemma keep_first_notin: "e \<in> set (keep_first seen es) \<Longrightarrow> lower e \<notin> seen"
  by (simp add: keep_first_mem)

lemma keep_first_distinct: "distinct (map lower (keep_first seen es))"
proof (induction es arbitrary: seen)
  case Nil
  show ?case by simp
next
  case (Cons a es)
  have "lower a \<notin> lower ` set (keep_first (insert (lower a) seen) es)"
  proof
    assume "lower a \<in> lower ` set (keep_first (insert (lower a) seen) es)"
    then obtain x where x: "x \<in> set (keep_first (insert (lower a) seen) es)"
      and eq: "lower a = lower x" by (rule imageE)
    from keep_first_notin[OF x] eq show False by simp
  qed
  with Cons.IH[of seen] Cons.IH[of "insert (lower a) seen"] show ?case by simp
qed

lemma keep_first_image: "lower ` set (keep_first seen es) = lower ` set es - seen"
proof (induction es arbitrary: seen)
  case Nil
  show ?case by simp
next
  case (Cons a es)
  show ?case
  proof (cases "lower a \<in> seen")
    case True
    then show ?thesis using Cons.IH[of seen] by auto
  next
    case False
    then show ?thesis using Cons.IH[of "insert (lower a) seen"] by auto
  qed
qed

lemma extract_eq:
  "extract_emails_from_text s = sort_key lower (keep_first {} (findall email_pattern s))"
  by (simp add: extract_emails_from_text_def dedup_loop_eq Let_def)

lemma set_extract: "set (extract_emails_from_text s) = set (keep_first {} (findall email_pattern s))"
  by (simp add: extract_eq)

lemma distinct_map_sort_key: "distinct (map f (sort_key f xs)) = distinct (map f xs)"
proof -
  have "mset (map f (sort_key f xs)) = mset (map f xs)" by simp
  then show ?thesis by (rule mset_eq_imp_distinct_iff)
qed

lemma distinct_extract: "distinct (map lower (extract_emails_from_text s))"
  by (simp add: extract_eq distinct_map_sort_key keep_first_distinct)

lemma filter_key_single:
  "distinct (map g ys) \<Longrightarrow> f \<in> set ys \<Longrightarrow> filter (\<lambda>e. g e = g f) ys = [f]"
proof (induction ys)
  case Nil
  then show ?case by simp
next
  case (Cons y ys)
  show ?case
  proof (cases "y = f")
    case True
    with Cons.prems have "g f \<notin> g ` set ys" by simp
    then have "\<forall>x \<in> set ys. g x \<noteq> g f" by (metis imageI)
    then have "filter (\<lambda>e. g e = g f) ys = []" by (simp add: filter_empty_conv)
    with True show ?thesis by simp
  next
    case False
    with Cons.prems have "f \<in> set ys" "g y \<noteq> g f" by auto
    with Cons show ?thesis by simp
  qed
qed

lemma find_first_match:
  assumes "m \<in> set es"
  shows "\<exists>f. find (\<lambda>x. g x = g m) es = Some f \<and> f \<in> set es \<and> g f = g m"
proof (cases "find (\<lambda>x. g x = g m) es")
  case None
  with assms show ?thesis by (auto simp: find_None_iff)
next
  case (Some f)
  then show ?thesis by (auto simp: find_Some_iff)
qed

section \<open>Claims on the company label\<close>

text \<open>
  C5, as the specification states it, fails: the domain part of \<open>a@localhost\<close>, the
  portion after the first \<open>@\<close>, has no dot, and \<open>extract_company_from_email\<close> returns
  \<open>Localhost\<close>, not the empty string. Splitting a string that lacks the separator gives
  the string itself as the only piece, so no step of the parsing fails there. The
  label \<open>localhost\<close> is ASCII, where \<open>str.capitalize\<close> is \<open>capitalize_ascii\<close>.
\<close>

theorem company_no_dot_counterexample:
  "CHR ''.'' \<notin> set (after_first CHR ''@'' ''a@localhost'') \<and>
   extract_company_from_email capitalize_ascii ''a@localhost'' = ''Localhost'' \<and>
   extract_company_from_email capitalize_ascii ''a@localhost'' \<noteq> []"
  by (simp add: company_eq after_first_def before_first_def case_eval)

text \<open>
  C5, amended: \<open>extract_company_from_email\<close> returns the empty string for every email
  that lacks an \<open>@\<close>, and whenever a step of the parsing fails, which happens exactly
  when the email lacks an \<open>@\<close>; no error is propagated. For an email with an \<open>@\<close>
  whose domain part (the portion after the first \<open>@\<close>) lacks a dot it returns what
  \<open>str.capitalize\<close> makes of that domain, up to its next \<open>@\<close>. In particular the label
  of \<open>no-at-sign\<close> is the empty string. This holds whatever \<open>str.capitalize\<close> does.
\<close>

theorem company_absent_or_failed:
  "(CHR ''@'' \<notin> set email \<longrightarrow> extract_company_from_email cap email = []) \<and>
   ((\<exists>e. company_try cap email = Inl e) \<longleftrightarrow> CHR ''@'' \<notin> set email) \<and>
   (\<forall>e. company_try cap email = Inl e \<longrightarrow> extract_company_from_email cap email = []) \<and>
   (CHR ''@'' \<in> set email \<and> CHR ''.'' \<notin> set (after_first CHR ''@'' email) \<longrightarrow>
      extract_company_from_email cap email =
        cap (before_first CHR ''@'' (after_first CHR ''@'' email))) \<and>
   extract_company_from_email cap ''no-at-sign'' = []"
proof -
  have a: "CHR ''@'' \<notin> set email \<longrightarrow> extract_company_from_email cap email = []"
    by (simp add: company_eq)
  have b: "(\<exists>e. company_try cap email = Inl e) \<longleftrightarrow> CHR ''@'' \<notin> set email"
    by (simp add: company_try_eq)
  have c: "\<forall>e. company_try cap email = Inl e \<longrightarrow> extract_company_from_email cap email = []"
    by (simp add: extract_company_from_email_def)
  have d: "CHR ''@'' \<in> set email \<and> CHR ''.'' \<notin> set (after_first CHR ''@'' email) \<longrightarrow>
      extract_company_from_email cap email =
        cap (before_first CHR ''@'' (after_first CHR ''@'' email))"
  proof (intro impI, elim conjE)
    assume at: "CHR ''@'' \<in> set email" and nd: "CHR ''.'' \<notin> set (after_first CHR ''@'' email)"
    from nd before_first_subset[of "CHR ''@''" "after_first CHR ''@'' email"]
    have "CHR ''.'' \<notin> set (before_first CHR ''@'' (after_first CHR ''@'' email))" by blast
    then show "extract_company_from_email cap email =
        cap (before_first CHR ''@'' (after_first CHR ''@'' email))"
      using at by (simp add: company_eq before_first_id)
  qed
  have e: "extract_company_from_email cap ''no-at-sign'' = []"
    by (simp add: company_eq)
  from a b c d e show ?thesis by blast
qed

text \<open>
  The amended C5 at \<open>no-at-sign\<close> and at \<open>a@localhost\<close>, with \<open>capitalize_ascii\<close> for
  \<open>str.capitalize\<close>.
\<close>

theorem company_absent_or_failed_witness:
  "CHR ''@'' \<notin> set ''no-at-sign'' \<and>
   extract_company_from_email capitalize_ascii ''no-at-sign'' = [] \<and>
   company_try capitalize_ascii ''no-at-sign'' = Inl IndexError \<and>
   CHR ''@'' \<in> set ''a@localhost'' \<and> CHR ''.'' \<notin> set (after_first CHR ''@'' ''a@localhost'') \<and>
   extract_company_from_email capitalize_ascii ''a@localhost'' = ''Localhost''"
proof -
  have h1: "CHR ''@'' \<notin> set ''no-at-sign''" by simp
  have h2: "CHR ''@'' \<in> set ''a@localhost'' \<and> CHR ''.'' \<notin> set (after_first CHR ''@'' ''a@localhost'')"
    by (simp add: after_first_def)
  have v: "capitalize_ascii (before_first CHR ''@'' (after_first CHR ''@'' ''a@localhost'')) = ''Localhost''"
    by (simp add: after_first_def before_first_def case_eval)
  have t: "company_try capitalize_ascii ''no-at-sign'' = Inl IndexError"
    by (simp add: company_try_eq)
  from company_absent_or_failed[of "''no-at-sign''" capitalize_ascii] h1 t
    company_absent_or_failed[of "''a@localhost''" capitalize_ascii] h2 v
  show ?thesis by simp
qed

text \<open>
  C6, as the specification states it, fails when the portion after the first \<open>@\<close> has
  a second \<open>@\<close> before its first dot: for \<open>a@b@c.d\<close> that portion is \<open>b@c.d\<close>, the
  claim gives \<open>B@c\<close>, and \<open>extract_company_from_email\<close> returns \<open>B\<close>, since
  \<open>email.split('@')[1]\<close> is the piece between the first two \<open>@\<close>. Both labels are
  ASCII, where \<open>str.capitalize\<close> is \<open>capitalize_ascii\<close>.
\<close>

theorem company_second_at_counterexample:
  "CHR ''@'' \<in> set ''a@b@c.d'' \<and> CHR ''.'' \<in> set (after_first CHR ''@'' ''a@b@c.d'') \<and>
   extract_company_from_email capitalize_ascii ''a@b@c.d'' = ''B'' \<and>
   capitalize_ascii (before_first CHR ''.'' (after_first CHR ''@'' ''a@b@c.d'')) = ''B@c''"
  by (simp add: company_eq after_first_def before_first_def case_eval)

text \<open>
  C6, amended: for every email with an \<open>@\<close> whose domain, the portion after the first
  \<open>@\<close> and before the next one if there is one, has a dot,
  \<open>extract_company_from_email\<close> returns what \<open>str.capitalize\<close> makes of the part of
  that domain before its first dot; when this part is ASCII, that is the part with its
  first character in upper case and the others in lower case. With one \<open>@\<close> only in
  the email the domain is the whole portion after it. In particular the label of
  \<open>john.doe@Example.com\<close> is \<open>Example\<close>. All that is asked of \<open>str.capitalize\<close> is
  what it does on ASCII strings.
\<close>

theorem company_of_domain:
  assumes ascii: "\<And>s. list_all is_ascii s \<Longrightarrow> cap s = capitalize_ascii s"
  shows
  "(CHR ''@'' \<in> set email \<and>
    CHR ''.'' \<in> set (before_first CHR ''@'' (after_first CHR ''@'' email)) \<longrightarrow>
      extract_company_from_email cap email =
        cap (before_first CHR ''.'' (before_first CHR ''@'' (after_first CHR ''@'' email)))) \<and>
   (CHR ''@'' \<in> set email \<and>
    CHR ''.'' \<in> set (before_first CHR ''@'' (after_first CHR ''@'' email)) \<and>
    list_all is_ascii (before_first CHR ''.'' (before_first CHR ''@'' (after_first CHR ''@'' email)))
    \<longrightarrow>
      extract_company_from_email cap email =
        capitalize_ascii
          (before_first CHR ''.'' (before_first CHR ''@'' (after_first CHR ''@'' email)))) \<and>
   (CHR ''@'' \<in> set email \<and> CHR ''@'' \<notin> set (after_first CHR ''@'' email) \<and>
    CHR ''.'' \<in> set (after_first CHR ''@'' email) \<longrightarrow>
      extract_company_from_email cap email =
        cap (before_first CHR ''.'' (after_first CHR ''@'' email))) \<and>
   extract_company_from_email cap ''john.doe@Example.com'' = ''Example''"
proof -
  have a: "CHR ''@'' \<in> set email \<and>
    CHR ''.'' \<in> set (before_first CHR ''@'' (after_first CHR ''@'' email)) \<longrightarrow>
      extract_company_from_email cap email =
        cap (before_first CHR ''.'' (before_first CHR ''@'' (after_first CHR ''@'' email)))"
    by (simp add: company_eq)
  have a': "CHR ''@'' \<in> set email \<and>
    CHR ''.'' \<in> set (before_first CHR ''@'' (after_first CHR ''@'' email)) \<and>
    list_all is_ascii (before_first CHR ''.'' (before_first CHR ''@'' (after_first CHR ''@'' email)))
    \<longrightarrow>
      extract_company_from_email cap email =
        capitalize_ascii
          (before_first CHR ''.'' (before_first CHR ''@'' (after_first CHR ''@'' email)))"
    by (simp add: company_eq ascii)
  have b: "CHR ''@'' \<in> set email \<and> CHR ''@'' \<notin> set (after_first CHR ''@'' email) \<and>
    CHR ''.'' \<in> set (after_first CHR ''@'' email) \<longrightarrow>
      extract_company_from_email cap email =
        cap (before_first CHR ''.'' (after_first CHR ''@'' email))"
    by (simp add: company_eq before_first_id)
  have "list_all is_ascii ''Example''" by (simp add: is_ascii_def)
  from ascii[OF this] have "cap ''Example'' = ''Example''" by (simp add: case_eval)
  then have c: "extract_company_from_email cap ''john.doe@Example.com'' = ''Example''"
    by (simp add: company_eq after_first_def before_first_def)
  from a a' b c show ?thesis by blast
qed

text \<open>
  The amended C6 at an email with two \<open>@\<close> and at an email with one, with
  \<open>capitalize_ascii\<close> for \<open>str.capitalize\<close>.
\<close>

theorem company_of_domain_witness:
  "CHR ''@'' \<in> set ''a@Acme.io@x'' \<and>
   CHR ''.'' \<in> set (before_first CHR ''@'' (after_first CHR ''@'' ''a@Acme.io@x'')) \<and>
   list_all is_ascii
     (before_first CHR ''.'' (before_first CHR ''@'' (after_first CHR ''@'' ''a@Acme.io@x''))) \<and>
   extract_company_from_email capitalize_ascii ''a@Acme.io@x'' = ''Acme'' \<and>
   CHR ''@'' \<in> set ''bob@mAIL.org'' \<and> CHR ''@'' \<notin> set (after_first CHR ''@'' ''bob@mAIL.org'') \<and>
   CHR ''.'' \<in> set (after_first CHR ''@'' ''bob@mAIL.org'') \<and>
   extract_company_from_email capitalize_ascii ''bob@mAIL.org'' = ''Mail''"
proof -
  have cap: "\<And>s. list_all is_ascii s \<Longrightarrow> capitalize_ascii s = capitalize_ascii s"
    by (rule refl)
  have h1: "CHR ''@'' \<in> set ''a@Acme.io@x'' \<and>
   CHR ''.'' \<in> set (before_first CHR ''@'' (after_first CHR ''@'' ''a@Acme.io@x'')) \<and>
   list_all is_ascii
     (before_first CHR ''.'' (before_first CHR ''@'' (after_first CHR ''@'' ''a@Acme.io@x'')))"
    by (simp add: after_first_def before_first_def is_ascii_def)
  have v1: "capitalize_ascii (before_first CHR ''.'' (before_first CHR ''@'' (after_first CHR ''@'' ''a@Acme.io@x''))) = ''Acme''"
    by (simp add: after_first_def before_first_def case_eval)
  have h2: "CHR ''@'' \<in> set ''bob@mAIL.org'' \<and> CHR ''@'' \<notin> set (after_first CHR ''@'' ''bob@mAIL.org'') \<and>
   CHR ''.'' \<in> set (after_first CHR ''@'' ''bob@mAIL.org'')"
    by (simp add: after_first_def)
  have v2: "capitalize_ascii (before_first CHR ''.'' (after_first CHR ''@'' ''bob@mAIL.org'')) = ''Mail''"
    by (simp add: after_first_def before_first_def case_eval)
  from company_of_domain[of capitalize_ascii "''a@Acme.io@x''", OF cap] h1 v1
    company_of_domain[of capitalize_ascii "''bob@mAIL.org''", OF cap] h2 v2
  show ?thesis by simp
qed

lemmas scan_eval =
  email_pattern_def local_char_def domain_char_def alpha_char_def is_lower_def is_upper_def
  is_digit_def try_down.simps

lemmas extract_eval =
  extract_emails_from_text_def lower_def lower_char_def ascii_lowercase_def scan_eval

section \<open>Claims on the extraction\<close>

text \<open>
  C1: for every input, every email \<open>extract_emails_from_text\<close> returns matches the
  pattern \<open>[a-zA-Z0-9._%+-]+@[a-zA-Z0-9.-]+\.[a-zA-Z]{2,}\<close> as a whole and is a
  contiguous part of the input.
\<close>

theorem extracted_are_emails:
  "\<forall>e \<in> set (extract_emails_from_text s). is_email e \<and> occurs_in e s"
proof
  fix e assume "e \<in> set (extract_emails_from_text s)"
  then have "e \<in> set (findall email_pattern s)"
    by (simp add: set_extract keep_first_mem)
  then show "is_email e \<and> occurs_in e s" by (rule findall_email)
qed

text \<open>C1 on a text with one email in it.\<close>

theorem extracted_are_emails_witness:
  "''a.b@c-d.org'' \<in> set (extract_emails_from_text ''to a.b@c-d.org, 7'') \<and>
   is_email ''a.b@c-d.org'' \<and> occurs_in ''a.b@c-d.org'' ''to a.b@c-d.org, 7''"
proof -
  have m: "''a.b@c-d.org'' \<in> set (extract_emails_from_text ''to a.b@c-d.org, 7'')"
    by (simp add: extract_eval)
  from bspec[OF extracted_are_emails[of "''to a.b@c-d.org, 7''"] m] m show ?thesis
    by (intro conjI) (rule m, erule conjunct1, erule conjunct2)
qed

text \<open>
  C2: for every input, no two entries of the list \<open>extract_emails_from_text\<close> returns
  have the same lowercased form.
\<close>

theorem extracted_distinct_lowercase:
  "distinct (map lower (extract_emails_from_text s))"
  by (rule distinct_extract)

text \<open>
  C3: for every input, the list \<open>extract_emails_from_text\<close> returns is in ascending
  order of the lowercased value of its entries.
\<close>

theorem extracted_sorted_lowercase:
  "sorted (map lower (extract_emails_from_text s))"
  by (simp add: extract_eq)

text \<open>
  C4: for every match of the scan, the first match with the same lowercased form, in
  the order of the scan, is in the list returned, with its own casing, and is the only
  entry of this lowercased form. In particular the extraction on
  \<open>Contact us at a@b.co or A@B.CO for info\<close> returns \<open>a@b.co\<close> alone.
\<close>

theorem first_casing_kept:
  "(\<forall>m \<in> set (findall email_pattern s).
      \<exists>f. find (\<lambda>x. lower x = lower m) (findall email_pattern s) = Some f \<and>
          filter (\<lambda>e. lower e = lower m) (extract_emails_from_text s) = [f]) \<and>
   extract_emails_from_text ''Contact us at a@b.co or A@B.CO for info'' = [''a@b.co'']"
proof
  show "\<forall>m \<in> set (findall email_pattern s).
      \<exists>f. find (\<lambda>x. lower x = lower m) (findall email_pattern s) = Some f \<and>
          filter (\<lambda>e. lower e = lower m) (extract_emails_from_text s) = [f]"
  proof
    fix m assume "m \<in> set (findall email_pattern s)"
    from find_first_match[OF this, of lower] obtain f
      where f: "find (\<lambda>x. lower x = lower m) (findall email_pattern s) = Some f"
        "f \<in> set (findall email_pattern s)" "lower f = lower m" by blast
    then have "f \<in> set (extract_emails_from_text s)"
      by (simp add: set_extract keep_first_mem)
    from filter_key_single[OF distinct_extract this]
    have "filter (\<lambda>e. lower e = lower f) (extract_emails_from_text s) = [f]" .
    with f show "\<exists>f. find (\<lambda>x. lower x = lower m) (findall email_pattern s) = Some f \<and>
          filter (\<lambda>e. lower e = lower m) (extract_emails_from_text s) = [f]" by simp
  qed
  show "extract_emails_from_text ''Contact us at a@b.co or A@B.CO for info'' = [''a@b.co'']"
    by (simp add: extract_eval)
qed

text \<open>C4 on a text where the second match differs from the first in its casing only.\<close>

theorem first_casing_kept_witness:
  "''Ann@X.io'' \<in> set (findall email_pattern ''ann@x.io Ann@X.io'') \<and>
   find (\<lambda>x. lower x = lower ''Ann@X.io'') (findall email_pattern ''ann@x.io Ann@X.io'')
     = Some ''ann@x.io'' \<and>
   filter (\<lambda>e. lower e = lower ''Ann@X.io'') (extract_emails_from_text ''ann@x.io Ann@X.io'')
     = [''ann@x.io'']"
proof -
  have fa: "findall email_pattern ''ann@x.io Ann@X.io'' = [''ann@x.io'', ''Ann@X.io'']"
    by (simp add: scan_eval)
  have m: "''Ann@X.io'' \<in> set (findall email_pattern ''ann@x.io Ann@X.io'')"
    by (subst fa) simp
  have fi: "find (\<lambda>x. lower x = lower ''Ann@X.io'') (findall email_pattern ''ann@x.io Ann@X.io'')
     = Some ''ann@x.io''"
    by (subst fa) (simp add: lower_def lower_char_def ascii_lowercase_def is_upper_def)
  have "\<forall>m \<in> set (findall email_pattern ''ann@x.io Ann@X.io'').
      \<exists>f. find (\<lambda>x. lower x = lower m) (findall email_pattern ''ann@x.io Ann@X.io'') = Some f \<and>
          filter (\<lambda>e. lower e = lower m) (extract_emails_from_text ''ann@x.io Ann@X.io'') = [f]"
    using first_casing_kept[of "''ann@x.io Ann@X.io''"] by (rule conjunct1)
  from bspec[OF this m] obtain f
    where "find (\<lambda>x. lower x = lower ''Ann@X.io'') (findall email_pattern ''ann@x.io Ann@X.io'') = Some f"
      and fl: "filter (\<lambda>e. lower e = lower ''Ann@X.io'') (extract_emails_from_text ''ann@x.io Ann@X.io'') = [f]"
    by blast
  with fi have "f = ''ann@x.io''" by (simp only: option.inject)
  with fl m fi show ?thesis by (simp only: simp_thms)
qed

text \<open>
  C10: for every input, the lowercased form of every match of the scan is the
  lowercased form of an entry of the list returned, and the length of the list is the
  number of distinct lowercased matches.
\<close>

theorem extraction_complete:
  "(\<forall>m \<in> set (findall email_pattern s).
      lower m \<in> set (map lower (extract_emails_from_text s))) \<and>
   length (extract_emails_from_text s) = card (lower ` set (findall email_pattern s))"
proof -
  have img: "lower ` set (extract_emails_from_text s) = lower ` set (findall email_pattern s)"
    by (simp add: set_extract keep_first_image)
  have "length (extract_emails_from_text s) = length (map lower (extract_emails_from_text s))"
    by simp
  also have "\<dots> = card (set (map lower (extract_emails_from_text s)))"
    using distinct_extract[of s] by (simp only: distinct_card)
  also have "\<dots> = card (lower ` set (findall email_pattern s))"
    using img by simp
  finally show ?thesis using img by auto
qed

text \<open>C10 on a text with three matches of two lowercased forms.\<close>

theorem extraction_complete_witness:
  "''B@C.de'' \<in> set (findall email_pattern ''b@c.de x@y.zz B@C.de'') \<and>
   lower ''B@C.de'' \<in> set (map lower (extract_emails_from_text ''b@c.de x@y.zz B@C.de'')) \<and>
   length (extract_emails_from_text ''b@c.de x@y.zz B@C.de'') = 2"
proof -
  have fa: "findall email_pattern ''b@c.de x@y.zz B@C.de'' = [''b@c.de'', ''x@y.zz'', ''B@C.de'']"
    by (simp add: scan_eval)
  have m: "''B@C.de'' \<in> set (findall email_pattern ''b@c.de x@y.zz B@C.de'')"
    by (subst fa) simp
  have c: "card (lower ` set (findall email_pattern ''b@c.de x@y.zz B@C.de'')) = 2"
    by (subst fa) (simp add: lower_def lower_char_def ascii_lowercase_def is_upper_def card_insert_if)
  have a: "\<forall>m \<in> set (findall email_pattern ''b@c.de x@y.zz B@C.de'').
      lower m \<in> set (map lower (extract_emails_from_text ''b@c.de x@y.zz B@C.de''))"
    using extraction_complete[of "''b@c.de x@y.zz B@C.de''"] by (rule conjunct1)
  have b: "length (extract_emails_from_text ''b@c.de x@y.zz B@C.de'') =
      card (lower ` set (findall email_pattern ''b@c.de x@y.zz B@C.de''))"
    using extraction_complete[of "''b@c.de x@y.zz B@C.de''"] by (rule conjunct2)
  from bspec[OF a m] m b c show ?thesis by (simp only: simp_thms)
qed

section \<open>The scan returns, and the result is determined\<close>

lemma findall_loop_eq: "findall_loop p s acc = Some (acc @ findall p s)"
proof (induction p s arbitrary: acc rule: findall.induct)
  case (1 p)
  show ?case
    by (subst findall_loop.simps) (simp split: option.splits)
next
  case (2 p c cs)
  show ?case
  proof (cases "match_items p (c # cs)")
    case None
    then show ?thesis
      by (subst findall_loop.simps) (simp add: "2.IH"(1)[OF None])
  next
    case (Some r)
    show ?thesis
    proof (cases "length r < length (c # cs)")
      case True
      then show ?thesis
        by (subst findall_loop.simps) (simp add: Some "2.IH"(2)[OF Some True])
    next
      case False
      then show ?thesis
        by (subst findall_loop.simps) (simp add: Some "2.IH"(3)[OF Some False])
    qed
  qed
qed

lemma sorted_key_unique:
  assumes m: "mset ys = mset zs" and d: "distinct (map g ys)"
    and sy: "sorted (map g ys)" and sz: "sorted (map g zs)"
  shows "ys = zs"
proof -
  from m have mm: "mset (map g ys) = mset (map g zs)" by simp
  from mset_eq_imp_distinct_iff[OF mm] d have dz: "distinct (map g zs)" by simp
  from mm have "set (map g ys) = set (map g zs)" by (rule mset_eq_setD)
  from sorted_distinct_set_unique[OF sy d sz dz this] have eq: "map g ys = map g zs" .
  from m have "set ys = set zs" by (rule mset_eq_setD)
  moreover from d have "inj_on g (set ys)" by (simp add: distinct_map)
  ultimately have "inj_on g (set ys \<union> set zs)" by simp
  from inj_on_map_eq_map[OF this] eq show ?thesis by simp
qed

lemma extract_result_distinct:
  assumes "extract_result s ys"
  shows "distinct (map lower ys)"
proof -
  from assms have "mset ys = mset (keep_first {} (findall email_pattern s))"
    by (simp add: extract_result_def dedup_loop_eq)
  then have "mset (map lower ys) = mset (map lower (keep_first {} (findall email_pattern s)))"
    by simp
  from mset_eq_imp_distinct_iff[OF this] keep_first_distinct show ?thesis by simp
qed

text \<open>
  C7: the extraction returns a list for every input: the scan of \<open>re.findall\<close>, written
  as a loop that could run forever, returns on every text, and no other step of
  \<open>extract_emails_from_text\<close> can fail. On a text with no email in it the list is
  empty.
\<close>

theorem extraction_total:
  "extract_emails_run s = Some (extract_emails_from_text s) \<and>
   extract_emails_run ''no emails here'' = Some []"
proof
  show "extract_emails_run s = Some (extract_emails_from_text s)"
    by (simp add: extract_emails_run_def findall_loop_eq extract_emails_from_text_def)
  have "findall email_pattern ''no emails here'' = []"
    by (simp add: scan_eval)
  then show "extract_emails_run ''no emails here'' = Some []"
    by (simp add: extract_emails_run_def findall_loop_eq)
qed

text \<open>
  C8: the list returned is determined by the input. Whatever procedure sorts the
  deduplicated matches, a rearrangement of them in ascending order of the lowercased
  value is the list \<open>extract_emails_from_text\<close> returns, so that two runs on the same
  text return the same list.
\<close>

theorem extraction_deterministic:
  "extract_result s (extract_emails_from_text s) \<and>
   (\<forall>ys zs. extract_result s ys \<and> extract_result s zs \<longrightarrow> ys = zs)"
proof
  show "extract_result s (extract_emails_from_text s)"
    by (simp add: extract_result_def extract_emails_from_text_def)
  show "\<forall>ys zs. extract_result s ys \<and> extract_result s zs \<longrightarrow> ys = zs"
  proof (intro allI impI, elim conjE)
    fix ys zs assume y: "extract_result s ys" and z: "extract_result s zs"
    from y z have "mset ys = mset zs" by (simp add: extract_result_def)
    moreover from y have "distinct (map lower ys)" by (rule extract_result_distinct)
    moreover from y z have "sorted (map lower ys)" "sorted (map lower zs)"
      by (simp_all add: extract_result_def)
    ultimately show "ys = zs" by (rule sorted_key_unique)
  qed
qed

text \<open>C8 on a text whose two matches come in descending order.\<close>

theorem extraction_deterministic_witness:
  "extract_result ''b@c.de A@b.co'' [''A@b.co'', ''b@c.de''] \<and>
   extract_result ''b@c.de A@b.co'' (extract_emails_from_text ''b@c.de A@b.co'') \<and>
   extract_emails_from_text ''b@c.de A@b.co'' = [''A@b.co'', ''b@c.de'']"
proof -
  have fa: "findall email_pattern ''b@c.de A@b.co'' = [''b@c.de'', ''A@b.co'']"
    by (simp add: scan_eval)
  have lo: "map lower [''A@b.co'', ''b@c.de''] = [''a@b.co'', ''b@c.de'']"
    by (simp add: lower_def lower_char_def ascii_lowercase_def is_upper_def)
  have so: "sorted [''a@b.co'', ''b@c.de'']"
    by (simp add: less_eq_char_def less_char_def)
  have de: "dedup_loop [''b@c.de'', ''A@b.co''] {} [] = [''b@c.de'', ''A@b.co'']"
    by (simp add: lower_def lower_char_def ascii_lowercase_def is_upper_def)
  have h: "extract_result ''b@c.de A@b.co'' [''A@b.co'', ''b@c.de'']"
    unfolding extract_result_def fa de lo by (simp add: so)
  have r: "extract_result ''b@c.de A@b.co'' (extract_emails_from_text ''b@c.de A@b.co'')"
    using extraction_deterministic[of "''b@c.de A@b.co''"] by (rule conjunct1)
  have "\<forall>ys zs. extract_result ''b@c.de A@b.co'' ys \<and> extract_result ''b@c.de A@b.co'' zs
      \<longrightarrow> ys = zs"
    using extraction_deterministic[of "''b@c.de A@b.co''"] by (rule conjunct2)
  with h r have "[''A@b.co'', ''b@c.de''] = extract_emails_from_text ''b@c.de A@b.co''"
    by blast
  with h r show ?thesis by (simp only: simp_thms)
qed

section \<open>Reading back what the writer wrote\<close>

lemma read_plain:
  assumes "list_all (\<lambda>c. c \<notin> set [CHR '','', CHR 0x22, CHR 0x0D, CHR 0x0A]) f"
    and "m = FieldStart \<or> m = Plain"
  shows "read_rows m fld row (f @ CHR '','' # rest) = read_rows FieldStart [] (row @ [fld @ f]) rest"
    and "read_rows m fld row (f @ CHR 0x0D # rest) = read_rows AfterCR [] (row @ [fld @ f]) rest"
  using assms
proof (induction f arbitrary: m fld)
  case Nil
  {
    case 1
    then show ?case by auto
  next
    case 2
    then show ?case by auto
  }
next
  case (Cons c f)
  {
    case 1
    then have c: "c \<noteq> CHR '',''" "c \<noteq> CHR 0x22" "c \<noteq> CHR 0x0D" "c \<noteq> CHR 0x0A"
      and f: "list_all (\<lambda>c. c \<notin> set [CHR '','', CHR 0x22, CHR 0x0D, CHR 0x0A]) f"
      by auto
    from 1(2) c have "read_rows m fld row ((c # f) @ CHR '','' # rest) =
        read_rows Plain (fld @ [c]) row (f @ CHR '','' # rest)" by auto
    also have "\<dots> = read_rows FieldStart [] (row @ [(fld @ [c]) @ f]) rest"
      by (rule Cons.IH(1)[OF f]) simp
    finally show ?case by simp
  next
    case 2
    then have c: "c \<noteq> CHR '',''" "c \<noteq> CHR 0x22" "c \<noteq> CHR 0x0D" "c \<noteq> CHR 0x0A"
      and f: "list_all (\<lambda>c. c \<notin> set [CHR '','', CHR 0x22, CHR 0x0D, CHR 0x0A]) f"
      by auto
    from 2(2) c have "read_rows m fld row ((c # f) @ CHR 0x0D # rest) =
        read_rows Plain (fld @ [c]) row (f @ CHR 0x0D # rest)" by auto
    also have "\<dots> = read_rows AfterCR [] (row @ [(fld @ [c]) @ f]) rest"
      by (rule Cons.IH(2)[OF f]) simp
    finally show ?case by simp
  }
qed

lemma read_quoted:
  "read_rows InQuote fld row
     (concat (map (\<lambda>c. if c = CHR 0x22 then [CHR 0x22, CHR 0x22] else [c]) f)
        @ CHR 0x22 # CHR '','' # rest) =
   read_rows FieldStart [] (row @ [fld @ f]) rest"
  "read_rows InQuote fld row
     (concat (map (\<lambda>c. if c = CHR 0x22 then [CHR 0x22, CHR 0x22] else [c]) f)
        @ CHR 0x22 # CHR 0x0D # rest) =
   read_rows AfterCR [] (row @ [fld @ f]) rest"
  by (induction f arbitrary: fld) simp_all

lemma read_field:
  "read_rows FieldStart [] row (quote_field f @ CHR '','' # rest) =
     read_rows FieldStart [] (row @ [f]) rest"
  "read_rows FieldStart [] row (quote_field f @ CHR 0x0D # rest) =
     read_rows AfterCR [] (row @ [f]) rest"
proof -
  show "read_rows FieldStart [] row (quote_field f @ CHR '','' # rest) =
     read_rows FieldStart [] (row @ [f]) rest"
  proof (cases "needs_quote f")
    case True
    then show ?thesis using read_quoted(1)[of "[]" row f rest]
      by (simp add: quote_field_def)
  next
    case False
    then have "list_all (\<lambda>c. c \<notin> set [CHR '','', CHR 0x22, CHR 0x0D, CHR 0x0A]) f"
      by (simp add: needs_quote_def list_ex_iff list_all_iff)
    from read_plain(1)[OF this, of FieldStart "[]" row rest] False show ?thesis
      by (simp add: quote_field_def)
  qed
  show "read_rows FieldStart [] row (quote_field f @ CHR 0x0D # rest) =
     read_rows AfterCR [] (row @ [f]) rest"
  proof (cases "needs_quote f")
    case True
    then show ?thesis using read_quoted(2)[of "[]" row f rest]
      by (simp add: quote_field_def)
  next
    case False
    then have "list_all (\<lambda>c. c \<notin> set [CHR '','', CHR 0x22, CHR 0x0D, CHR 0x0A]) f"
      by (simp add: needs_quote_def list_ex_iff list_all_iff)
    from read_plain(2)[OF this, of FieldStart "[]" row rest] False show ?thesis
      by (simp add: quote_field_def)
  qed
qed

lemma read_joined:
  "read_rows FieldStart [] row (join_fields (map quote_field (f # fs)) @ crlf @ rest) =
     map_option ((#) (row @ f # fs)) (read_rows FieldStart [] [] rest)"
proof (induction fs arbitrary: f row)
  case Nil
  have "read_rows FieldStart [] row (quote_field f @ CHR 0x0D # CHR 0x0A # rest) =
      read_rows AfterCR [] (row @ [f]) (CHR 0x0A # rest)"
    by (rule read_field(2))
  then show ?case by (simp add: crlf_def)
next
  case (Cons g fs)
  have "read_rows FieldStart [] row
      (quote_field f @ CHR '','' # join_fields (map quote_field (g # fs)) @ crlf @ rest) =
      read_rows FieldStart [] (row @ [f]) (join_fields (map quote_field (g # fs)) @ crlf @ rest)"
    by (rule read_field(1))
  with Cons.IH[of "row @ [f]" g] show ?case by simp
qed

lemma read_row:
  assumes "fields \<noteq> []"
  shows "read_rows FieldStart [] [] (format_row fields @ rest) =
     map_option ((#) fields) (read_rows FieldStart [] [] rest)"
proof (cases "fields = [[]]")
  case True
  then show ?thesis by (simp add: format_row_def crlf_def)
next
  case False
  then have fr: "format_row fields = join_fields (map quote_field fields) @ crlf"
    by (simp add: format_row_def)
  from assms obtain f fs where "fields = f # fs" by (cases fields) auto
  with read_joined[of "[]" f fs rest] show ?thesis
    unfolding fr by simp
qed

lemma read_written:
  assumes "\<forall>r \<in> set rows. r \<noteq> []"
  shows "read_csv (concat (map format_row rows)) = Some rows"
  unfolding read_csv_def using assms
proof (induction rows)
  case Nil
  show ?case by simp
next
  case (Cons r rows)
  then have "r \<noteq> []" and "read_rows FieldStart [] [] (concat (map format_row rows)) = Some rows"
    by auto
  with read_row[of r "concat (map format_row rows)"] show ?case by simp
qed

lemma csv_loop_eq:
  "csv_loop cap emails out =
     out @ concat (map (\<lambda>email. format_row [email, extract_company_from_email cap email]) emails)"
  by (induction emails arbitrary: out) (simp_all add: writerow_def Let_def)

lemma csv_text_rows:
  "csv_loop cap emails (writerow [] [''Email'', ''Company/Domain'']) =
     concat (map format_row
       ([''Email'', ''Company/Domain''] #
          map (\<lambda>email. [email, extract_company_from_email cap email]) emails))"
  by (simp add: csv_loop_eq writerow_def comp_def)

lemma header_row:
  "format_row [''Email'', ''Company/Domain''] = ''Email,Company/Domain'' @ [CHR 0x0D, CHR 0x0A]"
  by (simp add: format_row_def quote_field_def needs_quote_def crlf_def)

section \<open>Claims on the CSV file\<close>

text \<open>
  C9, as the specification states it, fails on a list with a lone surrogate in it, which
  a JSON body can hold: the UTF-8 encoding of the CSV text raises \<open>UnicodeEncodeError\<close>
  and no file is sent. Here the email is the surrogate \<open>D800\<close> followed by \<open>@x.y\<close>;
  its label \<open>x\<close> is ASCII, where \<open>str.capitalize\<close> is \<open>capitalize_ascii\<close>.
\<close>

theorem csv_surrogate_counterexample:
  "download_csv_direct capitalize_ascii (Some [[CHR 0xED, CHR 0xA0, CHR 0x80] @ ''@x.y'']) =
     Inl UnicodeEncodeError"
  by (simp add: download_csv_direct_def csv_loop_eq writerow_def format_row_def quote_field_def
      needs_quote_def crlf_def encode_utf8_def company_eq after_first_def before_first_def
      case_eval)

text \<open>
  C9, amended: for every list of emails, the CSV text \<open>download_csv_direct\<close> writes
  reads back as the header row \<open>Email\<close>, \<open>Company/Domain\<close> followed by exactly one row
  for each email of the list, in order, whose two fields are the email and the company
  \<open>extract_company_from_email\<close> derives from it. When the text has no lone surrogate
  the file sent is this text; otherwise the encoding raises \<open>UnicodeEncodeError\<close>. In
  particular for the list of \<open>x@y.com\<close> alone the file is the two lines
  \<open>Email,Company/Domain\<close> and \<open>x@y.com,Y\<close>, each ended by carriage return and line
  feed. All that is asked of \<open>str.capitalize\<close> is what it does on ASCII strings.
\<close>

theorem csv_rows_encodable:
  assumes ascii: "\<And>s. list_all is_ascii s \<Longrightarrow> cap s = capitalize_ascii s"
  shows
  "read_csv (csv_loop cap emails (writerow [] [''Email'', ''Company/Domain''])) =
     Some ([''Email'', ''Company/Domain''] #
             map (\<lambda>email. [email, extract_company_from_email cap email]) emails) \<and>
   (\<not> has_surrogate (csv_loop cap emails (writerow [] [''Email'', ''Company/Domain''])) \<longrightarrow>
      download_csv_direct cap (Some emails) =
        Inr (CsvFile (csv_loop cap emails (writerow [] [''Email'', ''Company/Domain''])))) \<and>
   (has_surrogate (csv_loop cap emails (writerow [] [''Email'', ''Company/Domain''])) \<longrightarrow>
      download_csv_direct cap (Some emails) = Inl UnicodeEncodeError) \<and>
   download_csv_direct cap (Some [''x@y.com'']) =
     Inr (CsvFile (''Email,Company/Domain'' @ [CHR 0x0D, CHR 0x0A] @
                   ''x@y.com,Y'' @ [CHR 0x0D, CHR 0x0A]))"
proof (intro conjI)
  show "read_csv (csv_loop cap emails (writerow [] [''Email'', ''Company/Domain''])) =
     Some ([''Email'', ''Company/Domain''] #
             map (\<lambda>email. [email, extract_company_from_email cap email]) emails)"
    unfolding csv_text_rows by (rule read_written) auto
  show "\<not> has_surrogate (csv_loop cap emails (writerow [] [''Email'', ''Company/Domain''])) \<longrightarrow>
      download_csv_direct cap (Some emails) =
        Inr (CsvFile (csv_loop cap emails (writerow [] [''Email'', ''Company/Domain''])))"
    by (simp add: download_csv_direct_def encode_utf8_def Let_def)
  show "has_surrogate (csv_loop cap emails (writerow [] [''Email'', ''Company/Domain''])) \<longrightarrow>
      download_csv_direct cap (Some emails) = Inl UnicodeEncodeError"
    by (simp add: download_csv_direct_def encode_utf8_def Let_def)
  have "list_all is_ascii ''y''" by (simp add: is_ascii_def)
  from ascii[OF this] have "cap ''y'' = ''Y''" by (simp add: case_eval)
  then have co: "extract_company_from_email cap ''x@y.com'' = ''Y''"
    by (simp add: company_eq after_first_def before_first_def)
  have tx: "csv_loop cap [''x@y.com''] (writerow [] [''Email'', ''Company/Domain'']) =
      ''Email,Company/Domain'' @ [CHR 0x0D, CHR 0x0A] @ ''x@y.com,Y'' @ [CHR 0x0D, CHR 0x0A]"
    by (simp add: csv_loop_eq writerow_def header_row co)
      (simp add: format_row_def quote_field_def needs_quote_def crlf_def)
  have "\<not> has_surrogate
      (''Email,Company/Domain'' @ [CHR 0x0D, CHR 0x0A] @ ''x@y.com,Y'' @ [CHR 0x0D, CHR 0x0A])"
    by simp
  then show "download_csv_direct cap (Some [''x@y.com'']) =
     Inr (CsvFile (''Email,Company/Domain'' @ [CHR 0x0D, CHR 0x0A] @
                   ''x@y.com,Y'' @ [CHR 0x0D, CHR 0x0A]))"
    unfolding download_csv_direct_def option.case tx Let_def
    by (simp add: encode_utf8_def)
qed

text \<open>
  The amended C9 on an email with a comma in it, which the writer puts in double
  quotes, with \<open>capitalize_ascii\<close> for \<open>str.capitalize\<close>.
\<close>

theorem csv_rows_encodable_witness:
  "\<not> has_surrogate
      (csv_loop capitalize_ascii [''a,b@c.d''] (writerow [] [''Email'', ''Company/Domain''])) \<and>
   download_csv_direct capitalize_ascii (Some [''a,b@c.d'']) =
     Inr (CsvFile (''Email,Company/Domain'' @ [CHR 0x0D, CHR 0x0A] @
            [CHR 0x22] @ ''a,b@c.d'' @ [CHR 0x22] @ '',C'' @ [CHR 0x0D, CHR 0x0A])) \<and>
   read_csv (''Email,Company/Domain'' @ [CHR 0x0D, CHR 0x0A] @
            [CHR 0x22] @ ''a,b@c.d'' @ [CHR 0x22] @ '',C'' @ [CHR 0x0D, CHR 0x0A]) =
     Some [[''Email'', ''Company/Domain''], [''a,b@c.d'', ''C'']]"
proof -
  have cap: "\<And>s. list_all is_ascii s \<Longrightarrow> capitalize_ascii s = capitalize_ascii s"
    by (rule refl)
  have co: "extract_company_from_email capitalize_ascii ''a,b@c.d'' = ''C''"
    by (simp add: company_eq after_first_def before_first_def case_eval)
  have tx: "csv_loop capitalize_ascii [''a,b@c.d''] (writerow [] [''Email'', ''Company/Domain'']) =
      ''Email,Company/Domain'' @ [CHR 0x0D, CHR 0x0A] @
            [CHR 0x22] @ ''a,b@c.d'' @ [CHR 0x22] @ '',C'' @ [CHR 0x0D, CHR 0x0A]"
    by (simp add: csv_loop_eq writerow_def header_row co)
      (simp add: format_row_def quote_field_def needs_quote_def crlf_def)
  have ns: "\<not> has_surrogate
      (csv_loop capitalize_ascii [''a,b@c.d''] (writerow [] [''Email'', ''Company/Domain'']))"
    unfolding tx by simp
  note t = csv_rows_encodable[of capitalize_ascii "[''a,b@c.d'']", OF cap]
  from t have r: "read_csv
      (csv_loop capitalize_ascii [''a,b@c.d''] (writerow [] [''Email'', ''Company/Domain''])) =
     Some ([''Email'', ''Company/Domain''] #
             map (\<lambda>email. [email, extract_company_from_email capitalize_ascii email])
               [''a,b@c.d''])"
    by (rule conjunct1)
  from t ns have d: "download_csv_direct capitalize_ascii (Some [''a,b@c.d'']) =
      Inr (CsvFile
        (csv_loop capitalize_ascii [''a,b@c.d''] (writerow [] [''Email'', ''Company/Domain''])))"
    by blast
  from ns r d show ?thesis unfolding tx by (simp add: co)
qed

end
